theory Spec2Isabelle
  imports Main "HOL-Library.Word"
begin

section \<open>Function pointers and the wrapper \<open>std::function\<close>\<close>

text \<open>
  \<open>Delegate<_Rt(_Args...)>\<close> stores a \<open>std::vector<std::function<_Rt(_Args...)>>\<close>. The
  argument pack is one value of type \<open>'a\<close>, the return type is \<open>'r\<close> (\<open>unit\<close> for \<open>void\<close>) and
  \<open>'e\<close> is what user code may throw.

  \<open>c_function_type\<close> is \<open>return_type(*)(_Args...)\<close>. A value of it is the null pointer or the
  address of a function of the program. The parameters of \<open>add\<close>, \<open>remove\<close> and of the
  constructor are declared with the function type \<open>_Rt(_Args...)\<close>, which as a parameter
  is this pointer type.
\<close>

datatype fptr = nullptr | Pointer_to nat

text \<open>
  A \<open>std::function\<close> has no target (it was default-constructed, or built from a null
  function pointer), or its target is a function pointer, or its target is an object: a
  closure, a \<open>std::bind\<close> expression or a function object, given by its type (which fixes
  the code of its \<open>operator()\<close>) and its members (captures included), of type \<open>'f\<close>. The
  members are part of the wrapper: a copy of the wrapper has its own.
\<close>

datatype 'f std_function =
    Empty
  | FromPointer nat
  | FromObject nat 'f

text \<open>The constructor of \<open>std::function\<close> from a function pointer.\<close>

fun std_function_of :: "fptr \<Rightarrow> 'f std_function" where
  "std_function_of nullptr = Empty"
| "std_function_of (Pointer_to p) = FromPointer p"

text \<open>
  \<open>target<c_function_type>()\<close> points to the stored function pointer, and is \<open>nullptr\<close> when
  the target is of another type or missing.
\<close>

fun target :: "'f std_function \<Rightarrow> fptr option" where
  "target (FromPointer p) = Some (Pointer_to p)"
| "target Empty = None"
| "target (FromObject c ms) = None"

section \<open>The vector operations the class uses\<close>

text \<open>
  An iterator is a position, counted from \<open>begin()\<close>; \<open>end()\<close> is the length. Dereferencing
  or erasing at a position that holds no element, and \<open>end() - 1\<close> on an empty vector, are
  undefined behaviour, written \<open>None\<close>. The capacity of a vector is not modelled.
\<close>

definition push_back :: "'x list \<Rightarrow> 'x \<Rightarrow> 'x list" where
  "push_back v x = v @ [x]"

definition deref :: "'x list \<Rightarrow> nat \<Rightarrow> 'x option" where
  "deref v i = (if i < length v then Some (v ! i) else None)"

definition erase :: "'x list \<Rightarrow> nat \<Rightarrow> 'x list option" where
  "erase v i = (if i < length v then Some (take i v @ drop (Suc i) v) else None)"

definition end_minus_1 :: "'x list \<Rightarrow> nat option" where
  "end_minus_1 v = (if v = [] then None else Some (length v - 1))"

section \<open>The class \<open>Delegate\<close>\<close>

record 'f Delegate =
  m_invokationList :: "'f std_function list"

definition is_null :: "'f Delegate \<Rightarrow> bool" where
  "is_null d = (m_invokationList d = [])"

text \<open>\<open>add(function_type func)\<close>, also \<open>operator+=(function_type func)\<close>.\<close>

definition add :: "'f Delegate \<Rightarrow> fptr \<Rightarrow> 'f Delegate" where
  "add d func = d\<lparr>m_invokationList := push_back (m_invokationList d) (std_function_of func)\<rparr>"

text \<open>
  \<open>remove(function_type func)\<close>, also \<open>operator-=\<close>. The reverse iterator \<open>it\<close> is kept as
  the position of \<open>it.base()\<close>: \<open>rbegin()\<close> has base \<open>end()\<close>, \<open>rend()\<close> has base \<open>begin()\<close>,
  \<open>*it\<close> is the element before the base, and \<open>--it.base()\<close> is its position. The stored
  pointer of a wrapper is never null, so \<open>func_ptr != nullptr && *func_ptr == func\<close> is
  the comparison of what \<open>target\<close> gives with \<open>func\<close>.
\<close>

fun remove_scan :: "'f std_function list \<Rightarrow> fptr \<Rightarrow> nat \<Rightarrow> 'f std_function list option" where
  "remove_scan v func 0 = Some v"
| "remove_scan v func (Suc b) =
     (case deref v b of
        None \<Rightarrow> None
      | Some w \<Rightarrow>
          (case target w of
             None \<Rightarrow> remove_scan v func b
           | Some func_ptr \<Rightarrow> if func_ptr = func then erase v b else remove_scan v func b))"

definition remove :: "'f Delegate \<Rightarrow> fptr \<Rightarrow> 'f Delegate option" where
  "remove d func =
     (if is_null d then Some d
      else map_option (\<lambda>v. d\<lparr>m_invokationList := v\<rparr>)
             (remove_scan (m_invokationList d) func (length (m_invokationList d))))"

text \<open>
  \<open>push_back\<close> of a \<open>std::function\<close>: the \<open>initializer_list\<close> constructor, the constructor
  template and \<open>operator=(std_function_type&)\<close> use it.
\<close>

definition add_function :: "'f Delegate \<Rightarrow> 'f std_function \<Rightarrow> 'f Delegate" where
  "add_function d func = d\<lparr>m_invokationList := push_back (m_invokationList d) func\<rparr>"

definition clear :: "'f Delegate \<Rightarrow> 'f Delegate" where
  "clear d = d\<lparr>m_invokationList := []\<rparr>"

subsection \<open>Delegates at addresses, and \<open>add(const _delegate& other)\<close>\<close>

text \<open>
  Where a member function gets another delegate by reference, or a callable holds a
  pointer to a delegate, the two may be the same object: the delegates live at addresses.
\<close>

type_synonym 'f objects = "nat \<Rightarrow> 'f Delegate"

text \<open>
  \<open>add(const _delegate& other)\<close> is the loop
  \<open>for (std_function_type func : other.m_invokationList) m_invokationList.push_back(func)\<close>.
  The range-for keeps two iterators into the vector of \<open>other\<close>, \<open>__begin\<close> and \<open>__end\<close>.
  When \<open>other\<close> is \<open>*this\<close> the \<open>push_back\<close> is on the vector they point into and
  invalidates them, and the loop goes on to use them: undefined behaviour.
\<close>

function add_loop :: "'f objects \<Rightarrow> nat \<Rightarrow> nat \<Rightarrow> nat \<Rightarrow> nat \<Rightarrow> 'f objects option" where
  "add_loop h this other begin_pos end_pos =
     (if begin_pos \<noteq> end_pos then
        (case deref (m_invokationList (h other)) begin_pos of
           None \<Rightarrow> None
         | Some func \<Rightarrow>
             if this = other then None
             else add_loop (h(this := add_function (h this) func)) this other (Suc begin_pos) end_pos)
      else Some h)"
  by pat_completeness auto
termination
  by (relation "measure (\<lambda>(h, this, other, begin_pos, end_pos).
        length (m_invokationList (h other)) - begin_pos)")
     (auto simp: deref_def split: if_splits)

definition add_delegate :: "'f objects \<Rightarrow> nat \<Rightarrow> nat \<Rightarrow> 'f objects option" where
  "add_delegate h this other = add_loop h this other 0 (length (m_invokationList (h other)))"

text \<open>
  The same loop between two objects that cannot be the same one, a local variable or a
  by-value parameter being one of them.
\<close>

definition add_other :: "'f Delegate \<Rightarrow> 'f Delegate \<Rightarrow> 'f Delegate" where
  "add_other d other = fold (\<lambda>func this. add_function this func) (m_invokationList other) d"

subsection \<open>Constructors\<close>

definition Delegate_default :: "'f Delegate" where
  "Delegate_default = \<lparr>m_invokationList = []\<rparr>"

definition Delegate_function :: "fptr \<Rightarrow> 'f Delegate" where
  "Delegate_function func = add Delegate_default func"



subsection \<open>Assignment\<close>

text \<open>
  \<open>operator=(const _delegate&)\<close>, \<open>operator=(function_type&)\<close> and
  \<open>operator=(std_function_type&)\<close>. The second takes a reference to a function, which is
  never null: its argument is the address of the function.
\<close>

definition assign_copy :: "'f Delegate \<Rightarrow> 'f Delegate \<Rightarrow> 'f Delegate" where
  "assign_copy d copy = d\<lparr>m_invokationList := m_invokationList copy\<rparr>"

definition assign_function :: "'f Delegate \<Rightarrow> nat \<Rightarrow> 'f Delegate" where
  "assign_function d func = add (clear d) (Pointer_to func)"

definition assign_std_function :: "'f Delegate \<Rightarrow> 'f std_function \<Rightarrow> 'f Delegate" where
  "assign_std_function d func = add_function (clear d) func"

subsection \<open>Moving, and the operands of \<open>operator+\<close>\<close>

text \<open>
  \<open>x = std::move(y)\<close> on two vectors that are not the same object: \<open>x\<close> takes over the
  elements of \<open>y\<close>, and \<open>y\<close> is left without elements. The pair is \<open>x\<close> and \<open>y\<close> afterwards.
\<close>

definition vector_move_assign :: "'x list \<Rightarrow> 'x list \<Rightarrow> 'x list \<times> 'x list" where
  "vector_move_assign x y = (y, [])"

text \<open>
  \<open>Delegate(_delegate&& other)\<close>: the member is default-initialised, then move-assigned.
  The result is the object constructed and \<open>other\<close> afterwards.
\<close>

definition Delegate_move :: "'f Delegate \<Rightarrow> 'f Delegate \<times> 'f Delegate" where
  "Delegate_move other =
     (case vector_move_assign [] (m_invokationList other) of
        (x, y) \<Rightarrow> (\<lparr>m_invokationList = x\<rparr>, other\<lparr>m_invokationList := y\<rparr>))"

text \<open>\<open>operator=(_delegate&& other)\<close> compares \<open>this\<close> with \<open>&other\<close>.\<close>

definition assign_move :: "'f objects \<Rightarrow> nat \<Rightarrow> nat \<Rightarrow> 'f objects" where
  "assign_move h this other =
     (if this \<noteq> other then
        (case vector_move_assign (m_invokationList (h this)) (m_invokationList (h other)) of
           (x, y) \<Rightarrow> h(this := (h this)\<lparr>m_invokationList := x\<rparr>,
                       other := (h other)\<lparr>m_invokationList := y\<rparr>))
      else h)"



section \<open>Invocation\<close>

text \<open>
  What user code reads and writes: the delegates, by address, and the rest of the program
  state, of type \<open>'s\<close>. A closure that holds a pointer or reference to a delegate can
  change that delegate, the one it is stored in included.
\<close>

record ('f, 's) memory =
  delegates :: "'f objects"
  state :: 's

text \<open>
  The code of the program: that of the function at an address, and that of \<open>operator()\<close>
  of an object type, which gets the members of the object and gives them back as it
  left them. Either returns a value or throws, and leaves a memory behind; code that
  never returns is not modelled.
\<close>

record ('a, 'r, 'f, 's, 'e) program =
  function_at :: "nat \<Rightarrow> 'a \<Rightarrow> ('f, 's) memory \<Rightarrow> ('e + 'r) \<times> ('f, 's) memory"
  operator_of :: "nat \<Rightarrow> 'f \<Rightarrow> 'a \<Rightarrow> ('f, 's) memory \<Rightarrow> ('e + 'r) \<times> 'f \<times> ('f, 's) memory"

text \<open>
  What leaves \<open>invoke\<close> as an exception: its own \<open>DelegateInvocationException\<close> with its
  message, the \<open>std::bad_function_call\<close> of a wrapper without target, or whatever user
  code threw.
\<close>

datatype 'e exn = DelegateInvocationException string | bad_function_call | Thrown 'e

text \<open>
  \<open>std::function::operator()\<close> on the wrapper \<open>f\<close>: the outcome, the wrapper as the call left
  it, and the memory as the code left it.
\<close>

fun call_target ::
  "('a, 'r, 'f, 's, 'e) program \<Rightarrow> 'f std_function \<Rightarrow> 'a \<Rightarrow> ('f, 's) memory
     \<Rightarrow> ('e exn + 'r) \<times> 'f std_function \<times> ('f, 's) memory" where
  "call_target prog Empty params m = (Inl bad_function_call, Empty, m)"
| "call_target prog (FromPointer p) params m =
     (case function_at prog p params m of
        (Inl e, m') \<Rightarrow> (Inl (Thrown e), FromPointer p, m')
      | (Inr r, m') \<Rightarrow> (Inr r, FromPointer p, m'))"
| "call_target prog (FromObject c ms) params m =
     (case operator_of prog c ms params m of
        (Inl e, ms', m') \<Rightarrow> (Inl (Thrown e), FromObject c ms', m')
      | (Inr r, ms', m') \<Rightarrow> (Inr r, FromObject c ms', m'))"

text \<open>
  The program state, and beside it a record of the calls made through
  \<open>std::function::operator()\<close>: which wrapper, with which arguments, in the order of the
  calls. The record is there to state what \<open>invoke\<close> calls; no code reads it.
\<close>

record ('a, 'f, 's) world =
  mem :: "('f, 's) memory"
  calls :: "('f std_function \<times> 'a) list"

abbreviation list_at :: "('a, 'f, 's) world \<Rightarrow> nat \<Rightarrow> 'f std_function list" where
  "list_at \<sigma> this \<equiv> m_invokationList (delegates (mem \<sigma>) this)"

text \<open>
  \<open>(*func_iter)(params...)\<close> on the delegate at \<open>this\<close>, with \<open>func_iter\<close> at position \<open>i\<close>.
  The wrapper called is an element of the vector: what the call did to the members of
  its object is in that element afterwards, if the code has left the element in place.
\<close>

definition write_back ::
  "('f, 's) memory \<Rightarrow> nat \<Rightarrow> nat \<Rightarrow> 'f std_function \<Rightarrow> 'f std_function \<Rightarrow> ('f, 's) memory" where
  "write_back m this i f f' =
     (if deref (m_invokationList (delegates m this)) i = Some f then
        m\<lparr>delegates := (delegates m)
             (this := (delegates m this)
                \<lparr>m_invokationList := (m_invokationList (delegates m this))[i := f']\<rparr>)\<rparr>
      else m)"

definition call_at ::
  "('a, 'r, 'f, 's, 'e) program \<Rightarrow> nat \<Rightarrow> nat \<Rightarrow> 'a \<Rightarrow> ('a, 'f, 's) world
     \<Rightarrow> (('e exn + 'r) \<times> ('a, 'f, 's) world) option" where
  "call_at prog this i params \<sigma> =
     (case deref (list_at \<sigma> this) i of
        None \<Rightarrow> None
      | Some f \<Rightarrow>
          (case call_target prog f params (mem \<sigma>) of
             (res, f', m') \<Rightarrow>
               Some (res, \<sigma>\<lparr>mem := write_back m' this i f f', calls := calls \<sigma> @ [(f, params)]\<rparr>)))"

text \<open>
  The loop \<open>for (func_iter = begin(); func_iter != end() - 1; ++func_iter)\<close> of \<open>invoke\<close>.
  \<open>end()\<close> is read again at every step, from the vector as the calls so far have left
  it. A call that throws ends the loop with the exception; a returned value is dropped.
  The loop need not end: the outer \<open>None\<close> is a loop that runs forever, the inner one
  undefined behaviour.
\<close>

partial_function (option) invoke_loop ::
  "('a, 'r, 'f, 's, 'e) program \<Rightarrow> nat \<Rightarrow> nat \<Rightarrow> 'a \<Rightarrow> ('a, 'f, 's) world
     \<Rightarrow> ('e exn option \<times> ('a, 'f, 's) world) option option" where
  "invoke_loop prog this func_iter params \<sigma> =
     (case end_minus_1 (list_at \<sigma> this) of
        None \<Rightarrow> Some None
      | Some last_pos \<Rightarrow>
          if func_iter \<noteq> last_pos then
            (case call_at prog this func_iter params \<sigma> of
               None \<Rightarrow> Some None
             | Some (Inl e, \<sigma>') \<Rightarrow> Some (Some (Some e, \<sigma>'))
             | Some (Inr r, \<sigma>') \<Rightarrow> invoke_loop prog this (Suc func_iter) params \<sigma>')
          else Some (Some (None, \<sigma>)))"

text \<open>
  \<open>invoke\<close> on the delegate at \<open>this\<close>: the outcome and the world it leaves, the delegate
  in it.
\<close>

definition invoke ::
  "('a, 'r, 'f, 's, 'e) program \<Rightarrow> nat \<Rightarrow> 'a \<Rightarrow> ('a, 'f, 's) world
     \<Rightarrow> (('e exn + 'r) \<times> ('a, 'f, 's) world) option option" where
  "invoke prog this params \<sigma> =
     (if is_null (delegates (mem \<sigma>) this) then
        Some (Some (Inl (DelegateInvocationException ''Failed to invoke delegate''), \<sigma>))
      else
        (case invoke_loop prog this 0 params \<sigma> of
           None \<Rightarrow> None
         | Some None \<Rightarrow> Some None
         | Some (Some (Some e, \<sigma>')) \<Rightarrow> Some (Some (Inl e, \<sigma>'))
         | Some (Some (None, \<sigma>')) \<Rightarrow>
             (case end_minus_1 (list_at \<sigma>' this) of
                None \<Rightarrow> Some None
              | Some last_func \<Rightarrow>
                  (case call_at prog this last_func params \<sigma>' of
                     None \<Rightarrow> Some None
                   | Some (res, \<sigma>'') \<Rightarrow> Some (Some (res, \<sigma>''))))))"

text \<open>\<open>operator()\<close>.\<close>

definition operator_call ::
  "('a, 'r, 'f, 's, 'e) program \<Rightarrow> nat \<Rightarrow> 'a \<Rightarrow> ('a, 'f, 's) world
     \<Rightarrow> (('e exn + 'r) \<times> ('a, 'f, 's) world) option option" where
  "operator_call prog this params \<sigma> = invoke prog this params \<sigma>"

subsection \<open>The calls of a run, one after the other\<close>

text \<open>
  The world after the calls at the positions \<open>0\<close> to \<open>k - 1\<close> of the delegate at \<open>this\<close>
  have been made in that order, what the call at position \<open>k\<close> then gives, and the memory
  as the code of that call leaves it (before the members go back into the element).
\<close>

fun world_after ::
  "('a, 'r, 'f, 's, 'e) program \<Rightarrow> nat \<Rightarrow> 'a \<Rightarrow> ('a, 'f, 's) world \<Rightarrow> nat \<Rightarrow> ('a, 'f, 's) world" where
  "world_after prog this params \<sigma> 0 = \<sigma>"
| "world_after prog this params \<sigma> (Suc k) =
     (case call_at prog this k params (world_after prog this params \<sigma> k) of
        None \<Rightarrow> world_after prog this params \<sigma> k
      | Some (res, \<sigma>') \<Rightarrow> \<sigma>')"

definition result_at ::
  "('a, 'r, 'f, 's, 'e) program \<Rightarrow> nat \<Rightarrow> 'a \<Rightarrow> ('a, 'f, 's) world \<Rightarrow> nat \<Rightarrow> ('e exn + 'r) option" where
  "result_at prog this params \<sigma> k =
     map_option fst (call_at prog this k params (world_after prog this params \<sigma> k))"


text \<open>Two vectors that differ at most at position \<open>k\<close>.\<close>

definition same_but :: "nat \<Rightarrow> 'x list \<Rightarrow> 'x list \<Rightarrow> bool" where
  "same_but k v v' =
     (length v' = length v \<and> take k v' = take k v \<and> drop (Suc k) v' = drop (Suc k) v)"

section \<open>The earlier revision of Delegate.h\<close>

text \<open>
  The repository holds an earlier revision of the header as well. Its \<open>remove\<close> walks the
  vector by index: \<open>for (uint32_t i = 0; i < size(); ++i)\<close> with
  \<open>uint32_t index = size() - i - 1\<close>, where \<open>size()\<close> is a \<open>size_t\<close> and the counters are
  32-bit words that wrap around. The outer \<open>None\<close> is a loop that does not end, the inner
  one undefined behaviour.
\<close>

partial_function (option) remove_indexed_loop ::
  "'f std_function list \<Rightarrow> fptr \<Rightarrow> 32 word \<Rightarrow> 'f std_function list option option" where
  "remove_indexed_loop v func i =
     (if unat i < length v then
        (case deref v (unat (word_of_nat (length v - unat i - 1) :: 32 word)) of
           None \<Rightarrow> Some None
         | Some w \<Rightarrow>
             (case target w of
                None \<Rightarrow> remove_indexed_loop v func (i + 1)
              | Some func_ptr \<Rightarrow>
                  if func_ptr = func
                  then Some (erase v (unat (word_of_nat (length v - unat i - 1) :: 32 word)))
                  else remove_indexed_loop v func (i + 1)))
      else Some (Some v))"

definition remove_indexed :: "'f Delegate \<Rightarrow> fptr \<Rightarrow> 'f Delegate option option" where
  "remove_indexed d func =
     (if is_null d then Some (Some d)
      else map_option (map_option (\<lambda>v. d\<lparr>m_invokationList := v\<rparr>))
             (remove_indexed_loop (m_invokationList d) func 0))"

text \<open>
  Its \<open>invoke\<close> has the same test for an empty list, then calls \<open>invoke_void\<close> when the
  return type is \<open>void\<close> and \<open>invoke_nonvoid\<close> otherwise. Both walk the vector by index,
  \<open>m_invokationList[i](params...)\<close> with a \<open>uint32_t i\<close>, and read \<open>size()\<close> again at every
  step. \<open>size()\<close> is a \<open>size_t\<close>, 64 bits wide, and so is \<open>size() - 1\<close>, which wraps for
  an empty vector.
\<close>

definition size_minus_1 :: "'x list \<Rightarrow> nat" where
  "size_minus_1 v = (length v + 2 ^ 64 - 1) mod 2 ^ 64"

text \<open>
  \<open>invoke_nonvoid\<close>: \<open>for (uint32_t i = 0; i < size() - 1; ++i)\<close>, then
  \<open>uint32_t last = size() - 1\<close> and \<open>return m_invokationList[last](params...)\<close>.
\<close>

partial_function (option) invoke_nonvoid_loop ::
  "('a, 'r, 'f, 's, 'e) program \<Rightarrow> nat \<Rightarrow> 32 word \<Rightarrow> 'a \<Rightarrow> ('a, 'f, 's) world
     \<Rightarrow> ('e exn option \<times> ('a, 'f, 's) world) option option" where
  "invoke_nonvoid_loop prog this i params \<sigma> =
     (if unat i < size_minus_1 (list_at \<sigma> this) then
        (case call_at prog this (unat i) params \<sigma> of
           None \<Rightarrow> Some None
         | Some (Inl e, \<sigma>') \<Rightarrow> Some (Some (Some e, \<sigma>'))
         | Some (Inr r, \<sigma>') \<Rightarrow> invoke_nonvoid_loop prog this (i + 1) params \<sigma>')
      else Some (Some (None, \<sigma>)))"

definition invoke_nonvoid ::
  "('a, 'r, 'f, 's, 'e) program \<Rightarrow> nat \<Rightarrow> 'a \<Rightarrow> ('a, 'f, 's) world
     \<Rightarrow> (('e exn + 'r) \<times> ('a, 'f, 's) world) option option" where
  "invoke_nonvoid prog this params \<sigma> =
     (case invoke_nonvoid_loop prog this 0 params \<sigma> of
        None \<Rightarrow> None
      | Some None \<Rightarrow> Some None
      | Some (Some (Some e, \<sigma>')) \<Rightarrow> Some (Some (Inl e, \<sigma>'))
      | Some (Some (None, \<sigma>')) \<Rightarrow>
          (case call_at prog this
                  (unat (word_of_nat (size_minus_1 (list_at \<sigma>' this)) :: 32 word)) params \<sigma>' of
             None \<Rightarrow> Some None
           | Some (res, \<sigma>'') \<Rightarrow> Some (Some (res, \<sigma>''))))"

text \<open>\<open>invoke_void\<close>: \<open>for (uint32_t i = 0; i < size(); ++i)\<close>.\<close>

partial_function (option) invoke_void_loop ::
  "('a, unit, 'f, 's, 'e) program \<Rightarrow> nat \<Rightarrow> 32 word \<Rightarrow> 'a \<Rightarrow> ('a, 'f, 's) world
     \<Rightarrow> ('e exn option \<times> ('a, 'f, 's) world) option option" where
  "invoke_void_loop prog this i params \<sigma> =
     (if unat i < length (list_at \<sigma> this) then
        (case call_at prog this (unat i) params \<sigma> of
           None \<Rightarrow> Some None
         | Some (Inl e, \<sigma>') \<Rightarrow> Some (Some (Some e, \<sigma>'))
         | Some (Inr r, \<sigma>') \<Rightarrow> invoke_void_loop prog this (i + 1) params \<sigma>')
      else Some (Some (None, \<sigma>)))"

definition invoke_void ::
  "('a, unit, 'f, 's, 'e) program \<Rightarrow> nat \<Rightarrow> 'a \<Rightarrow> ('a, 'f, 's) world
     \<Rightarrow> (('e exn + unit) \<times> ('a, 'f, 's) world) option option" where
  "invoke_void prog this params \<sigma> =
     (case invoke_void_loop prog this 0 params \<sigma> of
        None \<Rightarrow> None
      | Some None \<Rightarrow> Some None
      | Some (Some (Some e, \<sigma>')) \<Rightarrow> Some (Some (Inl e, \<sigma>'))
      | Some (Some (None, \<sigma>')) \<Rightarrow> Some (Some (Inr (), \<sigma>')))"

text \<open>The earlier \<open>invoke\<close>, for a return type that is not \<open>void\<close> and for \<open>void\<close>.\<close>

definition invoke_indexed ::
  "('a, 'r, 'f, 's, 'e) program \<Rightarrow> nat \<Rightarrow> 'a \<Rightarrow> ('a, 'f, 's) world
     \<Rightarrow> (('e exn + 'r) \<times> ('a, 'f, 's) world) option option" where
  "invoke_indexed prog this params \<sigma> =
     (if is_null (delegates (mem \<sigma>) this) then
        Some (Some (Inl (DelegateInvocationException ''Failed to invoke delegate''), \<sigma>))
      else invoke_nonvoid prog this params \<sigma>)"

definition invoke_indexed_void ::
  "('a, unit, 'f, 's, 'e) program \<Rightarrow> nat \<Rightarrow> 'a \<Rightarrow> ('a, 'f, 's) world
     \<Rightarrow> (('e exn + unit) \<times> ('a, 'f, 's) world) option option" where
  "invoke_indexed_void prog this params \<sigma> =
     (if is_null (delegates (mem \<sigma>) this) then
        Some (Some (Inl (DelegateInvocationException ''Failed to invoke delegate''), \<sigma>))
      else invoke_void prog this params \<sigma>)"

section \<open>IsCallable.h\<close>

text \<open>
  The types the trait tells apart. A class or struct is given by the names of its
  members, inherited ones included, by whether it is declared \<open>final\<close>, and by whether it
  is complete where the trait is used.
\<close>

record class_decl =
  member_names :: "string list"
  is_final :: bool
  is_complete :: bool

datatype cpp_type =
    Fundamental
  | Function
  | Pointer cpp_type
  | Enum
  | Union "string list"
  | Class class_decl

fun is_class :: "cpp_type \<Rightarrow> bool" where
  "is_class (Class T) = True"
| "is_class T = False"

text \<open>
  \<open>struct Fallback { void operator()(); }\<close> and \<open>struct Derived : T, Fallback { }\<close>. Looking
  a name up in \<open>Derived\<close> finds it in each base that has it.
\<close>

datatype base = Base_T | Base_Fallback

definition Fallback :: "string list" where
  "Fallback = [''operator()'']"

definition lookup_Derived :: "class_decl \<Rightarrow> string \<Rightarrow> base list" where
  "lookup_Derived T name =
     (if name \<in> set (member_names T) then [Base_T] else [])
     @ (if name \<in> set Fallback then [Base_Fallback] else [])"

text \<open>
  The two overloads of \<open>test\<close>. \<open>test(Check<void (Fallback::*)(), &C::operator()>*)\<close> takes
  part only when \<open>&C::operator()\<close> names one member, that of \<open>Fallback\<close>; \<open>test(...)\<close>
  always does, and loses against it for the argument \<open>0\<close>.
\<close>

datatype overload = test_ellipsis | test_Check

definition candidates :: "class_decl \<Rightarrow> overload list" where
  "candidates T =
     (if lookup_Derived T ''operator()'' = [Base_Fallback] then [test_Check] else []) @ [test_ellipsis]"

definition resolve :: "overload list \<Rightarrow> overload" where
  "resolve cs = (if test_Check \<in> set cs then test_Check else test_ellipsis)"

text \<open>\<open>success\<close> is \<open>char(&)[1]\<close> and \<open>fail\<close> is \<open>char(&)[2]\<close>.\<close>

definition sizeof_success :: nat where "sizeof_success = 1"

definition sizeof_fail :: nat where "sizeof_fail = 2"

fun sizeof_test :: "overload \<Rightarrow> nat" where
  "sizeof_test test_ellipsis = sizeof_success"
| "sizeof_test test_Check = sizeof_fail"

text \<open>
  \<open>_my_is_callable_impl<T>::value\<close>. A class cannot derive from a \<open>final\<close> class or from an
  incomplete one: there \<open>struct Derived : T, Fallback\<close> is an error of the program, not a
  failed substitution, and the trait has no value, which is \<open>None\<close>.
\<close>

definition my_is_callable_impl :: "class_decl \<Rightarrow> bool option" where
  "my_is_callable_impl T =
     (if is_final T \<or> \<not> is_complete T then None
      else Some (sizeof_test (resolve (candidates T)) = sizeof_success))"

text \<open>
  \<open>is_callable<T>\<close> derives from \<open>_my_is_callable_impl<T>\<close> when \<open>std::is_class_v<T>\<close>, from
  \<open>std::false_type\<close> otherwise; \<open>is_callable_v<T>\<close> is its \<open>value\<close>.
\<close>

fun is_callable :: "cpp_type \<Rightarrow> bool option" where
  "is_callable (Class T) = my_is_callable_impl T"
| "is_callable T = Some False"

definition is_callable_v :: "cpp_type \<Rightarrow> bool option" where
  "is_callable_v T = is_callable T"

text \<open>
  \<open>template<class _Ty> Delegate(_Ty fn)\<close>, with its \<open>static_assert\<close>: for a type that is not
  callable, or for which the trait has no value, there is no program, which is \<open>None\<close>.
  Otherwise \<open>push_back(fn)\<close> stores \<open>fn\<close> as \<open>std::function\<close> makes it a wrapper: a
  \<open>std::function\<close> of the same signature is copied, target and all, any other object
  becomes the target.
\<close>

datatype 'f argument = A_std_function "'f std_function" | An_object nat 'f

fun wrap :: "'f argument \<Rightarrow> 'f std_function" where
  "wrap (A_std_function f) = f"
| "wrap (An_object c ms) = FromObject c ms"

definition Delegate_callable :: "cpp_type \<Rightarrow> 'f argument \<Rightarrow> 'f Delegate option" where
  "Delegate_callable Ty fn =
     (case is_callable_v Ty of
        Some True \<Rightarrow> Some (add_function Delegate_default (wrap fn))
      | _ \<Rightarrow> None)"

section \<open>The functions of the examples, and a client of the header\<close>

text \<open>A memory without delegates: every address holds an empty one.\<close>

definition no_delegates :: "'f objects" where
  "no_delegates = (\<lambda>x. Delegate_default)"

text \<open>
  SimplestUsageExample.cpp declares \<open>int sum(int a, int b)\<close>, \<open>int sub(int a, int b)\<close>,
  \<open>int multiply(int a, int b)\<close> and the function object \<open>multiplier\<close>, which has no members
  and is the only class of the example. An \<open>int\<close> is a 32-bit word; none of them touches
  the memory.
\<close>

definition sum_ptr :: nat where "sum_ptr = 1"

definition sub_ptr :: nat where "sub_ptr = 2"

definition multiply_ptr :: nat where "multiply_ptr = 3"

definition multiplier :: nat where "multiplier = 1"

definition SimplestUsageExample :: "(32 word \<times> 32 word, 32 word, 'f, 's, 'e) program" where
  "SimplestUsageExample =
     \<lparr>function_at = (\<lambda>p (a, b) m.
          if p = sum_ptr then (Inr (a + b), m)
          else if p = sub_ptr then (Inr (a - b), m)
          else (Inr (a * b), m)),
      operator_of = (\<lambda>c ms (a, b) m. (Inr (a * b), ms, m))\<rparr>"







section \<open>Construction\<close>



lemma Delegate_function_list:
  "m_invokationList (Delegate_function func) = [std_function_of func]"
  by (simp add: Delegate_function_def add_def push_back_def Delegate_default_def)



section \<open>Removal\<close>

lemma remove_scan_no_match:
  "b \<le> length v \<Longrightarrow> \<forall>j<b. target (v ! j) \<noteq> Some func \<Longrightarrow> remove_scan v func b = Some v"
proof (induction b)
  case 0
  show ?case by simp
next
  case (Suc b)
  then have "target (v ! b) \<noteq> Some func" and "b < length v" by auto
  with Suc show ?case by (auto simp: deref_def split: option.splits)
qed

lemma remove_scan_last_match:
  assumes "k < b" and "b \<le> length v" and "target (v ! k) = Some func"
    and "\<forall>j. k < j \<and> j < b \<longrightarrow> target (v ! j) \<noteq> Some func"
  shows "remove_scan v func b = Some (take k v @ drop (Suc k) v)"
  using assms
proof (induction b)
  case 0
  then show ?case by simp
next
  case (Suc b)
  show ?case
  proof (cases "k = b")
    case True
    with Suc.prems show ?thesis by (simp add: deref_def erase_def)
  next
    case False
    with Suc.prems have kb: "k < b" and bl: "b < length v" by auto
    from Suc.prems kb have nb: "target (v ! b) \<noteq> Some func" by auto
    from Suc.prems have "\<forall>j. k < j \<and> j < b \<longrightarrow> target (v ! j) \<noteq> Some func" by auto
    with Suc.IH kb bl Suc.prems(3) have "remove_scan v func b = Some (take k v @ drop (Suc k) v)"
      by simp
    with nb bl show ?thesis by (auto simp: deref_def split: option.splits)
  qed
qed

lemma remove_scan_returns:
  "b \<le> length v \<Longrightarrow> \<exists>v'. remove_scan v func b = Some v'"
  by (induction b) (auto simp: deref_def erase_def split: option.splits)

lemma remove_returns: "\<exists>d'. remove d func = Some d'"
  using remove_scan_returns [of "length (m_invokationList d)" "m_invokationList d" func]
  by (auto simp: remove_def)

lemma target_nullptr: "target w \<noteq> Some nullptr"
  by (cases w) simp_all

lemma remove_nullptr: "remove d nullptr = Some d"
proof -
  have "remove_scan (m_invokationList d) nullptr (length (m_invokationList d))
      = Some (m_invokationList d)"
    by (intro remove_scan_no_match) (simp_all add: target_nullptr)
  then show ?thesis by (simp add: remove_def)
qed

text \<open>
  C10. For every delegate and every function pointer \<open>func\<close> that is not null,
  \<open>add(func)\<close> followed by \<open>remove(func)\<close> gives back the delegate as it was before the
  \<open>add\<close>, whether or not \<open>func\<close> already occurred in its invocation list: the backward
  scan meets the wrapper just appended first.
\<close>

theorem add_remove_roundtrip:
  assumes "func \<noteq> nullptr"
  shows "remove (add d func) func = Some d"
proof -
  from assms obtain p where p: "func = Pointer_to p" by (cases func) simp_all
  let ?v = "m_invokationList d @ [FromPointer p]"
  have "remove_scan ?v func (length ?v) = Some (take (length (m_invokationList d)) ?v
          @ drop (Suc (length (m_invokationList d))) ?v)"
    by (rule remove_scan_last_match) (auto simp: p)
  then show ?thesis
    by (simp add: remove_def add_def push_back_def is_null_def p)
qed

text \<open>
  C10, on \<open>{ sum, multiplier() }\<close> with \<open>add(sum)\<close> and \<open>remove(sum)\<close>.
\<close>

theorem add_remove_roundtrip_witness:
  "remove (add \<lparr>m_invokationList = [FromPointer sum_ptr, FromObject multiplier (0::nat)]\<rparr>
            (Pointer_to sum_ptr)) (Pointer_to sum_ptr)
   = Some \<lparr>m_invokationList = [FromPointer sum_ptr, FromObject multiplier 0]\<rparr>"
  using add_remove_roundtrip
    [of "Pointer_to sum_ptr" "\<lparr>m_invokationList = [FromPointer sum_ptr, FromObject multiplier (0::nat)]\<rparr>"]
  by simp

text \<open>
  C10 as it stands fails on the null pointer: \<open>add(nullptr)\<close> on \<open>{ sum }\<close> appends an
  empty \<open>std::function\<close>, whose \<open>target\<close> is null, and \<open>remove(nullptr)\<close> finds no match
  and leaves it in the list.
\<close>

theorem add_remove_nullptr_counterexample:
  "remove (add \<lparr>m_invokationList = [FromPointer sum_ptr]\<rparr> nullptr) nullptr
   = Some (\<lparr>m_invokationList = [FromPointer sum_ptr, Empty]\<rparr> :: nat Delegate)"
  by (simp add: remove_nullptr add_def push_back_def)

text \<open>
  C3. When a wrapper built from the function pointer \<open>func\<close> is at position \<open>k\<close> and none
  is at a later position, \<open>remove(func)\<close> erases the element at \<open>k\<close> and nothing else:
  the elements before \<open>k\<close> stay where they are, earlier occurrences of \<open>func\<close> among them,
  and the elements after \<open>k\<close> move down by one, in the same order.
\<close>

theorem remove_last_occurrence:
  assumes "k < length (m_invokationList d)"
    and "target (m_invokationList d ! k) = Some func"
    and "\<forall>j. k < j \<and> j < length (m_invokationList d) \<longrightarrow> target (m_invokationList d ! j) \<noteq> Some func"
  shows "\<exists>d'. remove d func = Some d'
           \<and> m_invokationList d' = take k (m_invokationList d) @ drop (Suc k) (m_invokationList d)
           \<and> length (m_invokationList d') = length (m_invokationList d) - 1
           \<and> (\<forall>j<k. m_invokationList d' ! j = m_invokationList d ! j)
           \<and> (\<forall>j. k \<le> j \<and> j < length (m_invokationList d) - 1
                  \<longrightarrow> m_invokationList d' ! j = m_invokationList d ! Suc j)"
proof -
  let ?v = "m_invokationList d"
  let ?v' = "take k ?v @ drop (Suc k) ?v"
  from assms have scan: "remove_scan ?v func (length ?v) = Some ?v'"
    by (intro remove_scan_last_match) auto
  from assms(1) have "\<not> is_null d" by (auto simp: is_null_def)
  with scan have r: "remove d func = Some (d\<lparr>m_invokationList := ?v'\<rparr>)"
    by (simp add: remove_def)
  from assms(1) have len: "length ?v' = length ?v - 1" by auto
  from assms(1) have lo: "\<forall>j<k. ?v' ! j = ?v ! j" by (simp add: nth_append)
  from assms(1) have hi: "\<forall>j. k \<le> j \<and> j < length ?v - 1 \<longrightarrow> ?v' ! j = ?v ! Suc j"
    by (auto simp: nth_append min_def)
  from r len lo hi show ?thesis by simp
qed

text \<open>
  C3, on \<open>{ sum, sub, multiplier(), sum, multiply }\<close>: the second \<open>sum\<close> goes.
\<close>

theorem remove_last_occurrence_witness:
  "remove \<lparr>m_invokationList = [FromPointer sum_ptr, FromPointer sub_ptr, FromObject multiplier (0::nat),
                                FromPointer sum_ptr, FromPointer multiply_ptr]\<rparr> (Pointer_to sum_ptr)
   = Some \<lparr>m_invokationList = [FromPointer sum_ptr, FromPointer sub_ptr, FromObject multiplier 0,
                                FromPointer multiply_ptr]\<rparr>"
proof -
  let ?d = "\<lparr>m_invokationList = [FromPointer sum_ptr, FromPointer sub_ptr, FromObject multiplier (0::nat),
                                FromPointer sum_ptr, FromPointer multiply_ptr]\<rparr>"
  have h1: "3 < length (m_invokationList ?d)" by simp
  have h2: "target (m_invokationList ?d ! 3) = Some (Pointer_to sum_ptr)" by simp
  have h3: "\<forall>j. 3 < j \<and> j < length (m_invokationList ?d)
              \<longrightarrow> target (m_invokationList ?d ! j) \<noteq> Some (Pointer_to sum_ptr)"
  proof (intro allI impI)
    fix j :: nat
    assume "3 < j \<and> j < length (m_invokationList ?d)"
    then have "j = 4" by simp
    then show "target (m_invokationList ?d ! j) \<noteq> Some (Pointer_to sum_ptr)"
      by (simp add: sum_ptr_def multiply_ptr_def)
  qed
  from remove_last_occurrence [OF h1 h2 h3] obtain d' where
    "remove ?d (Pointer_to sum_ptr) = Some d'"
    and "m_invokationList d' = take 3 (m_invokationList ?d) @ drop (Suc 3) (m_invokationList ?d)"
    by blast
  then show ?thesis by (cases d') simp
qed

text \<open>
  C8. When no wrapper of the list was built from the function pointer \<open>func\<close>,
  \<open>remove(func)\<close> changes nothing and does not fail; a closure or function object that
  behaves as \<open>func\<close> does is no match.
\<close>

theorem remove_unregistered_noop:
  assumes "\<forall>w \<in> set (m_invokationList d). target w \<noteq> Some func"
  shows "remove d func = Some d"
proof -
  from assms have "\<forall>j<length (m_invokationList d). target (m_invokationList d ! j) \<noteq> Some func"
    by simp
  then have "remove_scan (m_invokationList d) func (length (m_invokationList d))
      = Some (m_invokationList d)"
    by (intro remove_scan_no_match) simp_all
  then show ?thesis by (simp add: remove_def)
qed

text \<open>
  C8, on \<open>{ sum, multiplier(), an empty std::function }\<close> and \<open>remove(multiply)\<close>, where
  \<open>multiplier()\<close> computes what \<open>multiply\<close> does.
\<close>

theorem remove_unregistered_noop_witness:
  "remove \<lparr>m_invokationList = [FromPointer sum_ptr, FromObject multiplier (0::nat), Empty]\<rparr>
     (Pointer_to multiply_ptr)
   = Some \<lparr>m_invokationList = [FromPointer sum_ptr, FromObject multiplier 0, Empty]\<rparr>"
  using remove_unregistered_noop
    [of "\<lparr>m_invokationList = [FromPointer sum_ptr, FromObject multiplier (0::nat), Empty]\<rparr>"
        "Pointer_to multiply_ptr"]
  by (simp add: sum_ptr_def multiply_ptr_def)

section \<open>The runs of \<open>invoke\<close>\<close>

declare world_after.simps(2) [simp del]

lemma call_at_Some:
  assumes "call_at prog this i params \<sigma> = Some (res, \<sigma>')"
  shows "i < length (list_at \<sigma> this)"
    and "calls \<sigma>' = calls \<sigma> @ [(list_at \<sigma> this ! i, params)]"
  using assms
  by (auto simp: call_at_def deref_def split: if_splits prod.splits)

lemma world_after_Suc:
  "call_at prog this k params (world_after prog this params \<sigma> k) = Some (res, \<sigma>')
   \<Longrightarrow> world_after prog this params \<sigma> (Suc k) = \<sigma>'"
  by (simp add: world_after.simps(2))

lemma result_at_Some:
  assumes "result_at prog this params \<sigma> k = Some res"
  shows "call_at prog this k params (world_after prog this params \<sigma> k)
           = Some (res, world_after prog this params \<sigma> (Suc k))"
  using assms by (auto simp: result_at_def world_after.simps(2))

lemma invoke_loop_stop:
  "end_minus_1 (list_at \<sigma> this) = Some i
   \<Longrightarrow> invoke_loop prog this i params \<sigma> = Some (Some (None, \<sigma>))"
  by (subst invoke_loop.simps) simp

lemma invoke_loop_step:
  "end_minus_1 (list_at \<sigma> this) = Some last_pos \<Longrightarrow> i \<noteq> last_pos
   \<Longrightarrow> call_at prog this i params \<sigma> = Some (Inr r, \<sigma>')
   \<Longrightarrow> invoke_loop prog this i params \<sigma> = invoke_loop prog this (Suc i) params \<sigma>'"
  by (subst invoke_loop.simps) simp

lemma invoke_loop_throws:
  "end_minus_1 (list_at \<sigma> this) = Some last_pos \<Longrightarrow> i \<noteq> last_pos
   \<Longrightarrow> call_at prog this i params \<sigma> = Some (Inl e, \<sigma>')
   \<Longrightarrow> invoke_loop prog this i params \<sigma> = Some (Some (Some e, \<sigma>'))"
  by (subst invoke_loop.simps) simp

lemma same_but_after:
  assumes "same_but k v v'" and "Suc k \<le> j" and "j < length v"
  shows "v' ! j = v ! j"
proof -
  from assms have d: "drop (Suc k) v' = drop (Suc k) v" and l: "length v' = length v"
    by (simp_all add: same_but_def)
  from assms l have "v' ! j = drop (Suc k) v' ! (j - Suc k)" by simp
  also from d have "\<dots> = drop (Suc k) v ! (j - Suc k)" by simp
  also from assms have "\<dots> = v ! j" by simp
  finally show ?thesis .
qed

lemma run_invariant:
  assumes "\<forall>j<k. \<exists>r. result_at prog this params \<sigma> j = Some (Inr r)"
    and "\<forall>j<k. same_but j (list_at (world_after prog this params \<sigma> j) this)
                          (list_at (world_after prog this params \<sigma> (Suc j)) this)"
  shows "length (list_at (world_after prog this params \<sigma> k) this) = length (list_at \<sigma> this)
    \<and> (\<forall>j. k \<le> j \<and> j < length (list_at \<sigma> this)
          \<longrightarrow> list_at (world_after prog this params \<sigma> k) this ! j = list_at \<sigma> this ! j)
    \<and> calls (world_after prog this params \<sigma> k)
        = calls \<sigma> @ map (\<lambda>f. (f, params)) (take k (list_at \<sigma> this))"
  using assms
proof (induction k)
  case 0
  show ?case by simp
next
  case (Suc k)
  let ?W = "world_after prog this params \<sigma>"
  let ?l = "list_at \<sigma> this"
  from Suc.prems have IH: "length (list_at (?W k) this) = length ?l"
    "\<forall>j. k \<le> j \<and> j < length ?l \<longrightarrow> list_at (?W k) this ! j = ?l ! j"
    "calls (?W k) = calls \<sigma> @ map (\<lambda>f. (f, params)) (take k ?l)"
    using Suc.IH by auto
  from Suc.prems(1) obtain r where "result_at prog this params \<sigma> k = Some (Inr r)" by blast
  then have c: "call_at prog this k params (?W k) = Some (Inr r, ?W (Suc k))"
    by (rule result_at_Some)
  from call_at_Some [OF c] IH have kl: "k < length ?l"
    and cs: "calls (?W (Suc k)) = calls (?W k) @ [(?l ! k, params)]"
    by auto
  from Suc.prems(2) have sb: "same_but k (list_at (?W k) this) (list_at (?W (Suc k)) this)" by blast
  from sb IH(1) have len: "length (list_at (?W (Suc k)) this) = length ?l"
    by (simp add: same_but_def)
  from same_but_after [OF sb] IH(1,2)
  have rest: "\<forall>j. Suc k \<le> j \<and> j < length ?l \<longrightarrow> list_at (?W (Suc k)) this ! j = ?l ! j"
    by simp
  from cs IH(3) kl have "calls (?W (Suc k)) = calls \<sigma> @ map (\<lambda>f. (f, params)) (take (Suc k) ?l)"
    by (simp add: take_Suc_conv_app_nth)
  with len rest show ?case by blast
qed

lemma loop_advance:
  assumes normal: "\<forall>j<m. \<exists>r. result_at prog this params \<sigma> j = Some (Inr r)"
    and keeps: "\<forall>j<m. same_but j (list_at (world_after prog this params \<sigma> j) this)
                          (list_at (world_after prog this params \<sigma> (Suc j)) this)"
    and m: "m < length (list_at \<sigma> this)"
  shows "i \<le> m \<Longrightarrow>
    invoke_loop prog this i params (world_after prog this params \<sigma> i)
      = invoke_loop prog this m params (world_after prog this params \<sigma> m)"
proof (induction "m - i" arbitrary: i)
  case 0
  then show ?case by simp
next
  case (Suc d)
  let ?W = "world_after prog this params \<sigma>"
  from Suc have i: "i < m" by simp
  from normal keeps i have "\<forall>j<i. \<exists>r. result_at prog this params \<sigma> j = Some (Inr r)"
    and "\<forall>j<i. same_but j (list_at (?W j) this) (list_at (?W (Suc j)) this)"
    by auto
  from run_invariant [OF this]
  have len: "length (list_at (?W i) this) = length (list_at \<sigma> this)" by blast
  with m have e: "end_minus_1 (list_at (?W i) this) = Some (length (list_at \<sigma> this) - 1)"
    by (auto simp: end_minus_1_def)
  from i m have ne: "i \<noteq> length (list_at \<sigma> this) - 1" by simp
  from normal i obtain r where "result_at prog this params \<sigma> i = Some (Inr r)" by blast
  then have c: "call_at prog this i params (?W i) = Some (Inr r, ?W (Suc i))"
    by (rule result_at_Some)
  from Suc have "d = m - Suc i" and "Suc i \<le> m" by auto
  from Suc.hyps(1) [OF this] invoke_loop_step [OF e ne c] show ?case by simp
qed


lemma run_throw:
  assumes k: "k < length (list_at \<sigma> this)"
    and normal: "\<forall>j<k. \<exists>r. result_at prog this params \<sigma> j = Some (Inr r)"
    and keeps: "\<forall>j<k. same_but j (list_at (world_after prog this params \<sigma> j) this)
                          (list_at (world_after prog this params \<sigma> (Suc j)) this)"
    and throws: "result_at prog this params \<sigma> k = Some (Inl e)"
  shows "invoke prog this params \<sigma> = Some (Some (Inl e, world_after prog this params \<sigma> (Suc k)))"
proof -
  let ?W = "world_after prog this params \<sigma>"
  let ?n = "length (list_at \<sigma> this)"
  from k have ne: "\<not> is_null (delegates (mem \<sigma>) this)" by (auto simp: is_null_def)
  from run_invariant [OF normal keeps] have "length (list_at (?W k) this) = ?n" by blast
  with k have e: "end_minus_1 (list_at (?W k) this) = Some (?n - 1)"
    by (auto simp: end_minus_1_def)
  from throws have c: "call_at prog this k params (?W k) = Some (Inl e, ?W (Suc k))"
    by (rule result_at_Some)
  show ?thesis
  proof (cases "k = ?n - 1")
    case True
    with e have "end_minus_1 (list_at (?W k) this) = Some k" by simp
    from loop_advance [OF normal keeps k, of 0] invoke_loop_stop [OF this]
    have "invoke_loop prog this 0 params \<sigma> = Some (Some (None, ?W k))" by simp
    with ne e c True show ?thesis by (simp add: invoke_def)
  next
    case False
    from loop_advance [OF normal keeps k, of 0] invoke_loop_throws [OF e False c]
    have "invoke_loop prog this 0 params \<sigma> = Some (Some (Some e, ?W (Suc k)))" by simp
    with ne show ?thesis by (simp add: invoke_def)
  qed
qed














lemma run_upto:
  assumes k: "k < length (list_at \<sigma> this)"
    and normal: "\<forall>j<k. \<exists>r. result_at prog this params \<sigma> j = Some (Inr r)"
    and keeps: "\<forall>j<k. same_but j (list_at (world_after prog this params \<sigma> j) this)
                          (list_at (world_after prog this params \<sigma> (Suc j)) this)"
    and res: "result_at prog this params \<sigma> k = Some res"
    and ends: "(\<exists>e. res = Inl e) \<or> Suc k = length (list_at \<sigma> this)"
  shows "invoke prog this params \<sigma> = Some (Some (res, world_after prog this params \<sigma> (Suc k)))"
proof (cases res)
  case (Inl e)
  with res have "result_at prog this params \<sigma> k = Some (Inl e)" by simp
  from run_throw [OF k normal keeps this] Inl show ?thesis by simp
next
  case (Inr r)
  let ?W = "world_after prog this params \<sigma>"
  let ?n = "length (list_at \<sigma> this)"
  from Inr ends have last: "Suc k = ?n" by auto
  from k have ne: "\<not> is_null (delegates (mem \<sigma>) this)" by (auto simp: is_null_def)
  from run_invariant [OF normal keeps] have "length (list_at (?W k) this) = ?n" by blast
  with last have e: "end_minus_1 (list_at (?W k) this) = Some k"
    by (auto simp: end_minus_1_def)
  from loop_advance [OF normal keeps k, of 0] invoke_loop_stop [OF e]
  have loop: "invoke_loop prog this 0 params \<sigma> = Some (Some (None, ?W k))" by simp
  from res have "call_at prog this k params (?W k) = Some (res, ?W (Suc k))"
    by (rule result_at_Some)
  with ne loop e show ?thesis by (simp add: invoke_def)
qed

section \<open>The sum of two delegates\<close>







section \<open>Appending a delegate, and the exception of \<open>invoke\<close>\<close>

declare add_loop.simps [simp del]

lemma add_loop_other:
  "this \<noteq> other \<Longrightarrow> begin_pos \<le> length (m_invokationList (h other)) \<Longrightarrow>
   add_loop h this other begin_pos (length (m_invokationList (h other)))
     = Some (h(this := fold (\<lambda>func d. add_function d func)
                        (drop begin_pos (m_invokationList (h other))) (h this)))"
proof (induction "length (m_invokationList (h other)) - begin_pos" arbitrary: h begin_pos)
  case 0
  then show ?case by (subst add_loop.simps) simp
next
  case (Suc n)
  let ?v = "m_invokationList (h other)"
  from Suc have lt: "begin_pos < length ?v" by simp
  let ?h = "h(this := add_function (h this) (?v ! begin_pos))"
  from Suc.prems have same: "m_invokationList (?h other) = ?v" by simp
  from Suc lt have "n = length (m_invokationList (?h other)) - Suc begin_pos"
    and "Suc begin_pos \<le> length (m_invokationList (?h other))"
    by auto
  from Suc.hyps(1) [of ?h "Suc begin_pos", OF this(1) Suc.prems(1) this(2)]
  have "add_loop ?h this other (Suc begin_pos) (length ?v)
      = Some (h(this := fold (\<lambda>func d. add_function d func) (drop (Suc begin_pos) ?v)
                          (add_function (h this) (?v ! begin_pos))))"
    using Suc.prems(1) by simp
  moreover from lt Suc.prems(1)
  have "add_loop h this other begin_pos (length ?v)
      = add_loop ?h this other (Suc begin_pos) (length ?v)"
    by (subst add_loop.simps) (simp add: deref_def)
  moreover from lt have "drop begin_pos ?v = ?v ! begin_pos # drop (Suc begin_pos) ?v"
    by (simp add: Cons_nth_drop_Suc)
  ultimately show ?case by simp
qed

lemma add_delegate_other:
  "this \<noteq> other \<Longrightarrow>
   add_delegate h this other = Some (h(this := add_other (h this) (h other)))"
  by (simp add: add_delegate_def add_other_def add_loop_other)

lemma add_delegate_self:
  "add_delegate h this this = (if is_null (h this) then Some h else None)"
  unfolding add_delegate_def
  by (subst add_loop.simps) (simp add: is_null_def deref_def)

lemma call_target_not_own_exception:
  "fst (call_target prog f params m) \<noteq> Inl (DelegateInvocationException msg)"
  by (cases f) (simp_all split: prod.split sum.split)

lemma call_at_not_own_exception:
  assumes "call_at prog this i params \<sigma> = Some (res, \<sigma>')"
  shows "res \<noteq> Inl (DelegateInvocationException msg)"
proof (cases "deref (list_at \<sigma> this) i")
  case None
  with assms show ?thesis by (simp add: call_at_def)
next
  case (Some f)
  with assms have "res = fst (call_target prog f params (mem \<sigma>))"
    by (simp add: call_at_def split: prod.splits)
  with call_target_not_own_exception [of prog f params "mem \<sigma>" msg] show ?thesis by simp
qed

lemma invoke_loop_not_own_exception_any:
  "invoke_loop prog this i params \<sigma> = Some y
   \<Longrightarrow> \<forall>e \<sigma>'. y = Some (Some e, \<sigma>') \<longrightarrow> e \<noteq> DelegateInvocationException msg"
proof (induction rule: invoke_loop.raw_induct [rotated 1, consumes 1])
  case (1 invoke_loop' prog this func_iter params \<sigma> y)
  show ?case
  proof (cases "end_minus_1 (list_at \<sigma> this)")
    case None
    with 1(2) show ?thesis by auto
  next
    case (Some last_pos)
    show ?thesis
    proof (cases "func_iter = last_pos")
      case True
      with 1(2) Some show ?thesis by auto
    next
      case False
      show ?thesis
      proof (cases "call_at prog this func_iter params \<sigma>")
        case None
        with 1(2) Some False show ?thesis by auto
      next
        case called: (Some c)
        obtain res \<sigma>1 where c: "c = (res, \<sigma>1)" by (cases c)
        show ?thesis
        proof (cases res)
          case (Inl e)
          with called c have "call_at prog this func_iter params \<sigma> = Some (Inl e, \<sigma>1)" by simp
          from call_at_not_own_exception [OF this, of msg]
          have "e \<noteq> DelegateInvocationException msg" by simp
          moreover from 1(2) Some False called c Inl have "y = Some (Some e, \<sigma>1)" by simp
          ultimately show ?thesis by simp
        next
          case (Inr r)
          with 1(2) Some False called c
          have "invoke_loop' prog this (Suc func_iter) params \<sigma>1 = Some y" by simp
          then show ?thesis by (rule 1(1))
        qed
      qed
    qed
  qed
qed

lemma invoke_loop_not_own_exception:
  assumes "invoke_loop prog this i params \<sigma> = Some (Some (Some e, \<sigma>'))"
  shows "e \<noteq> DelegateInvocationException msg"
  using invoke_loop_not_own_exception_any [OF assms, of msg] by simp

lemma invoke_own_exception_empty:
  "is_null (delegates (mem \<sigma>) this) \<Longrightarrow>
   invoke prog this params \<sigma> = Some (Some (Inl (DelegateInvocationException msg), \<sigma>'))
   \<longleftrightarrow> msg = ''Failed to invoke delegate'' \<and> \<sigma>' = \<sigma>"
  by (auto simp: invoke_def)

lemma invoke_nonempty_cases:
  assumes "\<not> is_null (delegates (mem \<sigma>) this)"
    and "invoke prog this params \<sigma> = Some (Some (res, \<sigma>'))"
  shows "(\<exists>e. res = Inl e \<and> invoke_loop prog this 0 params \<sigma> = Some (Some (Some e, \<sigma>')))
       \<or> (\<exists>\<sigma>1 i. invoke_loop prog this 0 params \<sigma> = Some (Some (None, \<sigma>1))
                \<and> call_at prog this i params \<sigma>1 = Some (res, \<sigma>'))"
proof (cases "invoke_loop prog this 0 params \<sigma>")
  case None
  then have "invoke prog this params \<sigma> = None"
    using assms(1) by (simp add: invoke_def)
  with assms(2) show ?thesis by simp
next
  case (Some x)
  show ?thesis
  proof (cases x)
    case None
    with Some have "invoke prog this params \<sigma> = Some None"
      using assms(1) by (simp add: invoke_def)
    with assms(2) show ?thesis by simp
  next
    case inner: (Some y)
    obtain t \<sigma>1 where y: "y = (t, \<sigma>1)" by (cases y)
    show ?thesis
    proof (cases t)
      case thrown: (Some e)
      with Some inner y have loop: "invoke_loop prog this 0 params \<sigma> = Some (Some (Some e, \<sigma>1))"
        by simp
      then have "invoke prog this params \<sigma> = Some (Some (Inl e, \<sigma>1))"
        using assms(1) by (simp add: invoke_def)
      with assms(2) have "res = Inl e" "\<sigma>' = \<sigma>1" by simp_all
      with loop show ?thesis by simp
    next
      case None
      with Some inner y have loop: "invoke_loop prog this 0 params \<sigma> = Some (Some (None, \<sigma>1))"
        by simp
      show ?thesis
      proof (cases "end_minus_1 (list_at \<sigma>1 this)")
        case no_end: None
        with loop have "invoke prog this params \<sigma> = Some None"
          using assms(1) by (simp add: invoke_def)
        with assms(2) show ?thesis by simp
      next
        case last: (Some last_func)
        show ?thesis
        proof (cases "call_at prog this last_func params \<sigma>1")
          case no_call: None
          with loop last have "invoke prog this params \<sigma> = Some None"
            using assms(1) by (simp add: invoke_def)
          with assms(2) show ?thesis by simp
        next
          case called: (Some c)
          obtain res1 \<sigma>2 where c: "c = (res1, \<sigma>2)" by (cases c)
          with loop last called have "invoke prog this params \<sigma> = Some (Some (res1, \<sigma>2))"
            using assms(1) by (simp add: invoke_def)
          with assms(2) have "res1 = res" "\<sigma>2 = \<sigma>'" by simp_all
          with called c loop show ?thesis by blast
        qed
      qed
    qed
  qed
qed

lemma invoke_own_exception:
  "invoke prog this params \<sigma> = Some (Some (Inl (DelegateInvocationException msg), \<sigma>'))
   \<longleftrightarrow> is_null (delegates (mem \<sigma>) this) \<and> msg = ''Failed to invoke delegate'' \<and> \<sigma>' = \<sigma>"
proof (cases "is_null (delegates (mem \<sigma>) this)")
  case True
  with invoke_own_exception_empty [OF True] show ?thesis by simp
next
  case False
  have "invoke prog this params \<sigma> \<noteq> Some (Some (Inl (DelegateInvocationException msg), \<sigma>'))"
  proof
    assume "invoke prog this params \<sigma> = Some (Some (Inl (DelegateInvocationException msg), \<sigma>'))"
    from invoke_nonempty_cases [OF False this]
    have "invoke_loop prog this 0 params \<sigma>
            = Some (Some (Some (DelegateInvocationException msg), \<sigma>'))
        \<or> (\<exists>\<sigma>1 i. call_at prog this i params \<sigma>1
                       = Some (Inl (DelegateInvocationException msg), \<sigma>'))"
      by auto
    then show False
    proof
      assume "invoke_loop prog this 0 params \<sigma>
            = Some (Some (Some (DelegateInvocationException msg), \<sigma>'))"
      from invoke_loop_not_own_exception [OF this, of msg] show False by simp
    next
      assume "\<exists>\<sigma>1 i. call_at prog this i params \<sigma>1
                       = Some (Inl (DelegateInvocationException msg), \<sigma>')"
      then obtain \<sigma>1 i where "call_at prog this i params \<sigma>1
                       = Some (Inl (DelegateInvocationException msg), \<sigma>')"
        by blast
      from call_at_not_own_exception [OF this, of msg] show False by simp
    qed
  qed
  with False show ?thesis by simp
qed

text \<open>
  C2. \<open>d.add(d)\<close> on the delegate \<open>{ sum }\<close>: the loop of \<open>add(const _delegate&)\<close> walks the
  vector it appends to, which is undefined behaviour, where the documentation of the
  function says that it adds all functions of the other invocation list to this one.
\<close>

theorem add_delegate_self_undefined:
  "add_delegate (no_delegates(0 := \<lparr>m_invokationList = [FromPointer sum_ptr]\<rparr>)
                 :: nat objects) 0 0
     = None"
  by (simp add: add_delegate_self is_null_def)

section \<open>Moving and assigning\<close>

text \<open>
  C6. The move constructor gives the new delegate the invocation list of the source and
  leaves the source with an empty one; so does move assignment between two different
  objects, which touches no third object; move assignment of an object to itself changes
  nothing.
\<close>

theorem move_transfers_list:
  "m_invokationList (fst (Delegate_move other)) = m_invokationList other \<and>
   m_invokationList (snd (Delegate_move other)) = [] \<and>
   (this \<noteq> that \<longrightarrow>
      m_invokationList (assign_move h this that this) = m_invokationList (h that) \<and>
      m_invokationList (assign_move h this that that) = [] \<and>
      (\<forall>x. x \<noteq> this \<and> x \<noteq> that \<longrightarrow> assign_move h this that x = h x)) \<and>
   assign_move h this this = h"
  by (simp add: Delegate_move_def assign_move_def vector_move_assign_def)

text \<open>
  C6, on \<open>a = std::move(b)\<close> with \<open>a = { sum }\<close> and \<open>b = { sub, multiplier() }\<close>.
\<close>

theorem move_transfers_list_witness:
  "m_invokationList (assign_move
      (no_delegates
         (0 := \<lparr>m_invokationList = [FromPointer sum_ptr]\<rparr>,
          1 := \<lparr>m_invokationList = [FromPointer sub_ptr, FromObject multiplier (0::nat)]\<rparr>)) 0 1 0)
     = [FromPointer sub_ptr, FromObject multiplier 0] \<and>
   m_invokationList (assign_move
      (no_delegates
         (0 := \<lparr>m_invokationList = [FromPointer sum_ptr]\<rparr>,
          1 := \<lparr>m_invokationList = [FromPointer sub_ptr, FromObject multiplier (0::nat)]\<rparr>)) 0 1 1)
     = []"
  using move_transfers_list
    [where this = 0 and that = 1 and h = "no_delegates
         (0 := \<lparr>m_invokationList = [FromPointer sum_ptr]\<rparr>,
          1 := \<lparr>m_invokationList = [FromPointer sub_ptr, FromObject multiplier (0::nat)]\<rparr>)",
     THEN conjunct2, THEN conjunct2, THEN conjunct1]
  by simp

text \<open>
  C9. Assigning a function, or a \<open>std::function\<close>, to a delegate leaves it with an
  invocation list of exactly that one callable, whatever the list was. After
  \<open>operation = sum\<close> on any delegate in any world, \<open>operation(1, 2)\<close> calls \<open>sum\<close> once,
  returns 3 and changes nothing else.
\<close>

theorem assign_single_callable:
  "m_invokationList (assign_function d func) = [FromPointer func] \<and>
   m_invokationList (assign_std_function d f) = [f] \<and>
   invoke SimplestUsageExample this (1, 2)
     (\<sigma>\<lparr>mem := (mem \<sigma>)\<lparr>delegates :=
         (delegates (mem \<sigma>))(this := assign_function (delegates (mem \<sigma>) this) sum_ptr)\<rparr>\<rparr>)
     = Some (Some (Inr 3,
         \<sigma>\<lparr>mem := (mem \<sigma>)\<lparr>delegates :=
               (delegates (mem \<sigma>))(this := assign_function (delegates (mem \<sigma>) this) sum_ptr)\<rparr>,
           calls := calls \<sigma> @ [(FromPointer sum_ptr, (1, 2))]\<rparr>))"
  by (simp add: assign_function_def assign_std_function_def add_def add_function_def clear_def
      push_back_def invoke_def is_null_def invoke_loop.simps end_minus_1_def call_at_def
      write_back_def deref_def SimplestUsageExample_def sum_ptr_def)

text \<open>
  C9, on \<open>operation = { sum, sub, multiply }\<close>, then \<open>operation = sum\<close> and
  \<open>operation(1, 2)\<close>.
\<close>

theorem assign_single_callable_witness:
  "invoke (SimplestUsageExample :: (32 word \<times> 32 word, 32 word, nat, unit, unit) program) 0 (1, 2)
     \<lparr>mem = \<lparr>delegates = no_delegates
                 (0 := assign_function
                         \<lparr>m_invokationList = [FromPointer sum_ptr, FromPointer sub_ptr,
                                               FromPointer multiply_ptr]\<rparr> sum_ptr),
             state = ()\<rparr>,
      calls = []\<rparr>
   = Some (Some (Inr 3,
       \<lparr>mem = \<lparr>delegates = no_delegates(0 := \<lparr>m_invokationList = [FromPointer sum_ptr]\<rparr>),
               state = ()\<rparr>,
        calls = [(FromPointer sum_ptr, (1, 2))]\<rparr>))"
  using assign_single_callable
    [where this = 0
       and \<sigma> = "\<lparr>mem = \<lparr>delegates = no_delegates
                 (0 := \<lparr>m_invokationList = [FromPointer sum_ptr, FromPointer sub_ptr,
                                             FromPointer multiply_ptr]\<rparr>),
             state = ()\<rparr>,
          calls = []\<rparr> :: (32 word \<times> 32 word, nat, unit) world",
     THEN conjunct2, THEN conjunct2]
  by (simp add: assign_function_def add_def clear_def push_back_def)

section \<open>The trait\<close>

lemma is_callable_class:
  "\<not> is_final c \<Longrightarrow> is_complete c \<Longrightarrow>
   is_callable_v (Class c) = Some (''operator()'' \<in> set (member_names c))"
  by (simp add: is_callable_v_def my_is_callable_impl_def candidates_def lookup_Derived_def
      Fallback_def resolve_def sizeof_success_def sizeof_fail_def)

lemma Delegate_callable_class:
  "\<not> is_final c \<Longrightarrow> is_complete c \<Longrightarrow>
   Delegate_callable (Class c) fn
     = (if ''operator()'' \<in> set (member_names c)
        then Some \<lparr>m_invokationList = [wrap fn]\<rparr> else None)"
  by (simp add: Delegate_callable_def is_callable_class add_function_def push_back_def
      Delegate_default_def)

text \<open>
  C5. \<open>is_callable_v\<close> is false for a function type and for a fundamental type; for a
  class or struct that is complete and not \<open>final\<close> it is true exactly when the class has
  a member \<open>operator()\<close>; and it is false for every type that is not a class, whether it
  can be called or not.
\<close>

theorem is_callable_classifies:
  "is_callable_v Function = Some False \<and>
   is_callable_v Fundamental = Some False \<and>
   (\<not> is_final c \<and> is_complete c \<longrightarrow>
      is_callable_v (Class c) = Some (''operator()'' \<in> set (member_names c))) \<and>
   (\<not> is_class T \<longrightarrow> is_callable_v T = Some False)"
proof -
  have "\<not> is_class T \<longrightarrow> is_callable_v T = Some False"
    by (cases T) (simp_all add: is_callable_v_def)
  with is_callable_class [of c] show ?thesis by (simp add: is_callable_v_def)
qed

text \<open>
  C5, on \<open>multiplier\<close>, on \<open>StaticClass\<close> (which has \<open>print_squared\<close> only), and on a pointer
  to function.
\<close>

theorem is_callable_classifies_witness:
  "is_callable_v (Class \<lparr>member_names = [''operator()''], is_final = False, is_complete = True\<rparr>)
     = Some True \<and>
   is_callable_v (Class \<lparr>member_names = [''print_squared''], is_final = False, is_complete = True\<rparr>)
     = Some False \<and>
   is_callable_v (Pointer Function) = Some False"
  using is_callable_classifies
      [where c = "\<lparr>member_names = [''operator()''], is_final = False, is_complete = True\<rparr>"
        and T = "Pointer Function"]
    is_callable_classifies
      [where c = "\<lparr>member_names = [''print_squared''], is_final = False, is_complete = True\<rparr>"
        and T = "Pointer Function"]
  by simp

text \<open>
  C5 as it stands fails on \<open>struct F final { void operator()(); }\<close>, and on a class that
  is declared but not yet defined where the trait is used: \<open>struct Derived : T, Fallback\<close>
  does not compile, and the trait is neither true nor false.
\<close>

theorem is_callable_final_counterexample:
  "is_callable_v (Class \<lparr>member_names = [''operator()''], is_final = True, is_complete = True\<rparr>)
     = None \<and>
   is_callable_v (Class \<lparr>member_names = [''operator()''], is_final = False, is_complete = False\<rparr>)
     = None"
  by (simp add: is_callable_v_def my_is_callable_impl_def)

section \<open>The earlier revision\<close>

text \<open>
  On an invocation list of fewer than \<open>2 ^ 32\<close> wrappers the counter of the earlier
  \<open>remove\<close> does not wrap, its loop ends, and both revisions do the same.
\<close>

lemma unat_of_nat32: "n < 2 ^ 32 \<Longrightarrow> unat (word_of_nat n :: 32 word) = n"
  by (simp add: unat_of_nat)

lemma unat_succ32:
  assumes "unat (i :: 32 word) < n" and "n < 2 ^ 32"
  shows "unat (i + 1) = Suc (unat i)"
proof -
  from assms have "unat i + unat (1 :: 32 word) < 2 ^ LENGTH(32)" by simp
  then have "unat (i + 1) = unat i + unat (1 :: 32 word)" by (simp only: unat_add_lem)
  then show ?thesis by simp
qed

lemma remove_indexed_loop_scan:
  assumes n: "length v < 2 ^ 32"
  shows "unat i \<le> length v \<Longrightarrow>
    remove_indexed_loop v func i = Some (remove_scan v func (length v - unat i))"
proof (induction "length v - unat i" arbitrary: i)
  case 0
  then show ?case by (subst remove_indexed_loop.simps) simp
next
  case (Suc m)
  then have lt: "unat i < length v" and m: "length v - unat i - 1 = m"
    and sm: "length v - unat i = Suc m" by auto
  from m n have "m < 2 ^ 32" by simp
  then have idx: "unat (word_of_nat m :: 32 word) = m" by (rule unat_of_nat32)
  from lt n have suc: "unat (i + 1) = Suc (unat i)" by (rule unat_succ32)
  with Suc.hyps(2) lt have "m = length v - unat (i + 1)" and "unat (i + 1) \<le> length v" by auto
  from Suc.hyps(1) [OF this]
  have "remove_indexed_loop v func (i + 1) = Some (remove_scan v func (length v - unat (i + 1)))" .
  moreover from sm have "length v - Suc (unat i) = m" by arith
  ultimately have IH: "remove_indexed_loop v func (i + 1) = Some (remove_scan v func m)"
    by (simp only: suc)
  show ?case
    by (subst remove_indexed_loop.simps)
       (simp add: lt m idx sm IH split: option.splits)
qed

lemma remove_indexed_agrees:
  "length (m_invokationList d) < 2 ^ 32 \<Longrightarrow> remove_indexed d func = Some (remove d func)"
  by (simp add: remove_indexed_def remove_def remove_indexed_loop_scan option.map_comp comp_def)

text \<open>
  With \<open>2 ^ 32 + 1\<close> wrappers the index of the first step wraps to 0, and the scan of the
  earlier revision starts at the first wrapper instead of the last.
\<close>

lemma remove_indexed_wraps:
  assumes "length (m_invokationList d) = 2 ^ 32 + 1"
    and "target (m_invokationList d ! 0) = Some func"
  shows "remove_indexed d func = Some (Some (d\<lparr>m_invokationList := tl (m_invokationList d)\<rparr>))"
proof -
  let ?v = "m_invokationList d"
  from assms(1) have ne: "?v \<noteq> []" by auto
  have "(word_of_nat (2 ^ 32) :: 32 word) = 0" by simp
  with assms(1) have idx: "unat (word_of_nat (length ?v - unat (0 :: 32 word) - 1) :: 32 word) = 0"
    by simp
  from ne have d0: "deref ?v 0 = Some (?v ! 0)" by (simp add: deref_def)
  from ne have e0: "erase ?v 0 = Some (tl ?v)" by (cases ?v) (simp_all add: erase_def)
  have "remove_indexed_loop ?v func 0 = Some (Some (tl ?v))"
    by (subst remove_indexed_loop.simps) (simp only: idx d0 e0, simp add: ne assms(2))
  with ne show ?thesis by (simp add: remove_indexed_def is_null_def)
qed

text \<open>
  So do the two loops of the earlier \<open>invoke\<close>: on a run whose wrappers before position
  \<open>k\<close> return, each changing at most its own element, and whose wrapper \<open>k\<close> is the last
  one or throws, they give what \<open>invoke\<close> gives.
\<close>

lemma size_minus_1_eq: "v \<noteq> [] \<Longrightarrow> length v < 2 ^ 32 \<Longrightarrow> size_minus_1 v = length v - 1"
proof -
  assume "v \<noteq> []" and n: "length v < 2 ^ 32"
  then have "length v + 2 ^ 64 - 1 = (length v - 1) + 2 ^ 64" by (cases v) simp_all
  moreover from n have "length v - 1 < (2 ^ 64 :: nat)" by simp
  ultimately show ?thesis
    unfolding size_minus_1_def by (metis mod_add_self2 mod_less)
qed

lemma of_nat_succ32: "(word_of_nat i :: 32 word) + 1 = word_of_nat (Suc i)"
  by simp

lemma invoke_nonvoid_loop_stop:
  "\<not> unat i < size_minus_1 (list_at \<sigma> this)
   \<Longrightarrow> invoke_nonvoid_loop prog this i params \<sigma> = Some (Some (None, \<sigma>))"
  by (subst invoke_nonvoid_loop.simps) simp

lemma invoke_nonvoid_loop_step:
  "unat i < size_minus_1 (list_at \<sigma> this)
   \<Longrightarrow> call_at prog this (unat i) params \<sigma> = Some (Inr r, \<sigma>')
   \<Longrightarrow> invoke_nonvoid_loop prog this i params \<sigma> = invoke_nonvoid_loop prog this (i + 1) params \<sigma>'"
  by (subst invoke_nonvoid_loop.simps) simp

lemma invoke_nonvoid_loop_throws:
  "unat i < size_minus_1 (list_at \<sigma> this)
   \<Longrightarrow> call_at prog this (unat i) params \<sigma> = Some (Inl e, \<sigma>')
   \<Longrightarrow> invoke_nonvoid_loop prog this i params \<sigma> = Some (Some (Some e, \<sigma>'))"
  by (subst invoke_nonvoid_loop.simps) simp

lemma invoke_void_loop_stop:
  "\<not> unat i < length (list_at \<sigma> this)
   \<Longrightarrow> invoke_void_loop prog this i params \<sigma> = Some (Some (None, \<sigma>))"
  by (subst invoke_void_loop.simps) simp

lemma invoke_void_loop_step:
  "unat i < length (list_at \<sigma> this)
   \<Longrightarrow> call_at prog this (unat i) params \<sigma> = Some (Inr r, \<sigma>')
   \<Longrightarrow> invoke_void_loop prog this i params \<sigma> = invoke_void_loop prog this (i + 1) params \<sigma>'"
  by (subst invoke_void_loop.simps) simp

lemma invoke_void_loop_throws:
  "unat i < length (list_at \<sigma> this)
   \<Longrightarrow> call_at prog this (unat i) params \<sigma> = Some (Inl e, \<sigma>')
   \<Longrightarrow> invoke_void_loop prog this i params \<sigma> = Some (Some (Some e, \<sigma>'))"
  by (subst invoke_void_loop.simps) simp

lemma nonvoid_loop_advance:
  assumes normal: "\<forall>j<m. \<exists>r. result_at prog this params \<sigma> j = Some (Inr r)"
    and keeps: "\<forall>j<m. same_but j (list_at (world_after prog this params \<sigma> j) this)
                          (list_at (world_after prog this params \<sigma> (Suc j)) this)"
    and m: "m < length (list_at \<sigma> this)"
    and n: "length (list_at \<sigma> this) < 2 ^ 32"
  shows "i \<le> m \<Longrightarrow>
    invoke_nonvoid_loop prog this (word_of_nat i) params (world_after prog this params \<sigma> i)
      = invoke_nonvoid_loop prog this (word_of_nat m) params (world_after prog this params \<sigma> m)"
proof (induction "m - i" arbitrary: i)
  case 0
  then show ?case by simp
next
  case (Suc d)
  let ?W = "world_after prog this params \<sigma>"
  let ?n = "length (list_at \<sigma> this)"
  from Suc have i: "i < m" by simp
  from normal keeps i have "\<forall>j<i. \<exists>r. result_at prog this params \<sigma> j = Some (Inr r)"
    and "\<forall>j<i. same_but j (list_at (?W j) this) (list_at (?W (Suc j)) this)"
    by auto
  from run_invariant [OF this]
  have len: "length (list_at (?W i) this) = ?n" by blast
  with m n have "size_minus_1 (list_at (?W i) this) = ?n - 1"
    by (intro size_minus_1_eq [THEN trans]) auto
  moreover from i m n have ui: "unat (word_of_nat i :: 32 word) = i"
    by (intro unat_of_nat32) simp
  ultimately have lt: "unat (word_of_nat i :: 32 word) < size_minus_1 (list_at (?W i) this)"
    using i m by simp
  from normal i obtain r where "result_at prog this params \<sigma> i = Some (Inr r)" by blast
  then have "call_at prog this i params (?W i) = Some (Inr r, ?W (Suc i))"
    by (rule result_at_Some)
  with ui have c: "call_at prog this (unat (word_of_nat i :: 32 word)) params (?W i)
      = Some (Inr r, ?W (Suc i))" by simp
  from Suc have "d = m - Suc i" and "Suc i \<le> m" by auto
  from Suc.hyps(1) [OF this] invoke_nonvoid_loop_step [OF lt c] show ?case
    by (simp only: of_nat_succ32)
qed

lemma void_loop_advance:
  assumes normal: "\<forall>j<m. \<exists>r. result_at prog this params \<sigma> j = Some (Inr r)"
    and keeps: "\<forall>j<m. same_but j (list_at (world_after prog this params \<sigma> j) this)
                          (list_at (world_after prog this params \<sigma> (Suc j)) this)"
    and m: "m \<le> length (list_at \<sigma> this)"
    and n: "length (list_at \<sigma> this) < 2 ^ 32"
  shows "i \<le> m \<Longrightarrow>
    invoke_void_loop prog this (word_of_nat i) params (world_after prog this params \<sigma> i)
      = invoke_void_loop prog this (word_of_nat m) params (world_after prog this params \<sigma> m)"
proof (induction "m - i" arbitrary: i)
  case 0
  then show ?case by simp
next
  case (Suc d)
  let ?W = "world_after prog this params \<sigma>"
  let ?n = "length (list_at \<sigma> this)"
  from Suc have i: "i < m" by simp
  from normal keeps i have "\<forall>j<i. \<exists>r. result_at prog this params \<sigma> j = Some (Inr r)"
    and "\<forall>j<i. same_but j (list_at (?W j) this) (list_at (?W (Suc j)) this)"
    by auto
  from run_invariant [OF this]
  have len: "length (list_at (?W i) this) = ?n" by blast
  from i m n have ui: "unat (word_of_nat i :: 32 word) = i"
    by (intro unat_of_nat32) simp
  with len i m have lt: "unat (word_of_nat i :: 32 word) < length (list_at (?W i) this)"
    by simp
  from normal i obtain r where "result_at prog this params \<sigma> i = Some (Inr r)" by blast
  then have "call_at prog this i params (?W i) = Some (Inr r, ?W (Suc i))"
    by (rule result_at_Some)
  with ui have c: "call_at prog this (unat (word_of_nat i :: 32 word)) params (?W i)
      = Some (Inr r, ?W (Suc i))" by simp
  from Suc have "d = m - Suc i" and "Suc i \<le> m" by auto
  from Suc.hyps(1) [OF this] invoke_void_loop_step [OF lt c] show ?case
    by (simp only: of_nat_succ32)
qed

lemma invoke_indexed_agrees:
  assumes k: "k < length (list_at \<sigma> this)"
    and normal: "\<forall>j<k. \<exists>r. result_at prog this params \<sigma> j = Some (Inr r)"
    and keeps: "\<forall>j<k. same_but j (list_at (world_after prog this params \<sigma> j) this)
                          (list_at (world_after prog this params \<sigma> (Suc j)) this)"
    and res: "result_at prog this params \<sigma> k = Some res"
    and ends: "(\<exists>e. res = Inl e) \<or> Suc k = length (list_at \<sigma> this)"
    and n: "length (list_at \<sigma> this) < 2 ^ 32"
  shows "invoke_indexed prog this params \<sigma> = invoke prog this params \<sigma>"
proof -
  let ?W = "world_after prog this params \<sigma>"
  let ?n = "length (list_at \<sigma> this)"
  from k have ne: "\<not> is_null (delegates (mem \<sigma>) this)" by (auto simp: is_null_def)
  from run_invariant [OF normal keeps] have len: "length (list_at (?W k) this) = ?n" by blast
  with k n have sz: "size_minus_1 (list_at (?W k) this) = ?n - 1"
    by (intro size_minus_1_eq [THEN trans]) auto
  from k n have uk: "unat (word_of_nat k :: 32 word) = k"
    by (intro unat_of_nat32) simp
  from res have c: "call_at prog this k params (?W k) = Some (res, ?W (Suc k))"
    by (rule result_at_Some)
  note adv = nonvoid_loop_advance [OF normal keeps k n, of 0]
  have "invoke_nonvoid prog this params \<sigma> = Some (Some (res, ?W (Suc k)))"
  proof (cases "Suc k = ?n")
    case True
    with sz uk have "\<not> unat (word_of_nat k :: 32 word) < size_minus_1 (list_at (?W k) this)"
      by simp
    from adv invoke_nonvoid_loop_stop [OF this]
    have loop: "invoke_nonvoid_loop prog this 0 params \<sigma> = Some (Some (None, ?W k))" by simp
    from True sz have "size_minus_1 (list_at (?W k) this) = k" by simp
    with uk have "unat (word_of_nat (size_minus_1 (list_at (?W k) this)) :: 32 word) = k"
      by (simp only:)
    with loop c show ?thesis by (simp add: invoke_nonvoid_def)
  next
    case False
    with ends obtain e where e: "res = Inl e" by blast
    from False k sz uk have lt: "unat (word_of_nat k :: 32 word) < size_minus_1 (list_at (?W k) this)"
      by simp
    from c e uk have "call_at prog this (unat (word_of_nat k :: 32 word)) params (?W k)
        = Some (Inl e, ?W (Suc k))" by simp
    from adv invoke_nonvoid_loop_throws [OF lt this]
    have "invoke_nonvoid_loop prog this 0 params \<sigma> = Some (Some (Some e, ?W (Suc k)))" by simp
    with e show ?thesis by (simp add: invoke_nonvoid_def)
  qed
  with ne run_upto [OF k normal keeps res ends] show ?thesis
    by (simp add: invoke_indexed_def)
qed

lemma invoke_indexed_void_agrees:
  assumes k: "k < length (list_at \<sigma> this)"
    and normal: "\<forall>j<k. \<exists>r. result_at prog this params \<sigma> j = Some (Inr r)"
    and keeps: "\<forall>j<Suc k. same_but j (list_at (world_after prog this params \<sigma> j) this)
                          (list_at (world_after prog this params \<sigma> (Suc j)) this)"
    and res: "result_at prog this params \<sigma> k = Some res"
    and ends: "(\<exists>e. res = Inl e) \<or> Suc k = length (list_at \<sigma> this)"
    and n: "length (list_at \<sigma> this) < 2 ^ 32"
  shows "invoke_indexed_void prog this params \<sigma> = invoke prog this params \<sigma>"
proof -
  let ?W = "world_after prog this params \<sigma>"
  let ?n = "length (list_at \<sigma> this)"
  from k have ne: "\<not> is_null (delegates (mem \<sigma>) this)" by (auto simp: is_null_def)
  from keeps have keeps': "\<forall>j<k. same_but j (list_at (?W j) this) (list_at (?W (Suc j)) this)"
    by simp
  from run_invariant [OF normal keeps'] have len: "length (list_at (?W k) this) = ?n" by blast
  from k n have uk: "unat (word_of_nat k :: 32 word) = k"
    by (intro unat_of_nat32) simp
  from res have c: "call_at prog this k params (?W k) = Some (res, ?W (Suc k))"
    by (rule result_at_Some)
  from k have kle: "k \<le> ?n" by simp
  note adv = void_loop_advance [OF normal keeps' kle n, of 0]
  from uk len k have lt: "unat (word_of_nat k :: 32 word) < length (list_at (?W k) this)" by simp
  have "invoke_void prog this params \<sigma> = Some (Some (res, ?W (Suc k)))"
  proof (cases res)
    case (Inl e)
    with c uk have "call_at prog this (unat (word_of_nat k :: 32 word)) params (?W k)
        = Some (Inl e, ?W (Suc k))" by simp
    from adv invoke_void_loop_throws [OF lt this]
    have "invoke_void_loop prog this 0 params \<sigma> = Some (Some (Some e, ?W (Suc k)))" by simp
    with Inl show ?thesis by (simp add: invoke_void_def)
  next
    case (Inr r)
    with ends have last: "Suc k = ?n" by auto
    from Inr c uk have c': "call_at prog this (unat (word_of_nat k :: 32 word)) params (?W k)
        = Some (Inr r, ?W (Suc k))" by simp
    from keeps have "same_but k (list_at (?W k) this) (list_at (?W (Suc k)) this)" by simp
    with len have len': "length (list_at (?W (Suc k)) this) = ?n" by (simp add: same_but_def)
    from last n have "unat (word_of_nat (Suc k) :: 32 word) = Suc k"
      by (intro unat_of_nat32) simp
    with len' last have "\<not> unat (word_of_nat (Suc k) :: 32 word) < length (list_at (?W (Suc k)) this)"
      by simp
    from invoke_void_loop_stop [OF this]
    have "invoke_void_loop prog this (word_of_nat k + 1) params (?W (Suc k))
        = Some (Some (None, ?W (Suc k)))"
      by (simp only: of_nat_succ32)
    with adv invoke_void_loop_step [OF lt c']
    have "invoke_void_loop prog this 0 params \<sigma> = Some (Some (None, ?W (Suc k)))" by simp
    with Inr show ?thesis by (simp add: invoke_void_def)
  qed
  with ne run_upto [OF k normal keeps' res ends] show ?thesis
    by (simp add: invoke_indexed_void_def)
qed

end
